theory Spec2Isabelle
  imports Main "HOL-Library.Sublist" "HOL-Library.Log_Nat" "HOL-Library.Word"
begin

section \<open>GoCheck, Kaspersky scanner: a shallow embedding of \<^verbatim>\<open>scanner/kaspersky.go\<close>\<close>

text \<open>
  The development follows the source file function by function: the string helpers of
  the Go standard library that the verdict parser calls, \<^verbatim>\<open>Scan\<close>,
  \<^verbatim>\<open>IsMalicious\<close>, \<^verbatim>\<open>GetSignature\<close>, and
  \<^verbatim>\<open>KasperskyRun\<close> with its bisection loop and its two goroutines.

  Go's \<^verbatim>\<open>int\<close> is modelled by \<open>int\<close>. Every offset the loop computes lies
  between 0 and the length of the file (lemma \<open>pass_window_ok\<close> below), so the only sum the
  code forms, \<^verbatim>\<open>lastGood + upperBound\<close>, is at most twice the file length and does
  not wrap for any buffer a 64-bit Go program can hold in memory.
  A Go string is a sequence of bytes; it is modelled by \<open>string\<close>, whose characters
  are bytes.
\<close>

subsection \<open>Library functions of package \<^verbatim>\<open>strings\<close>\<close>

text \<open>\<^verbatim>\<open>strings.HasPrefix(s, prefix)\<close>.\<close>

fun HasPrefix :: "string \<Rightarrow> string \<Rightarrow> bool" where
  "HasPrefix s [] = True"
| "HasPrefix [] (p # ps) = False"
| "HasPrefix (c # cs) (p # ps) = (c = p \<and> HasPrefix cs ps)"

text \<open>\<^verbatim>\<open>strings.Contains(s, substr)\<close>: \<open>substr\<close> occurs in \<open>s\<close> as a contiguous block.\<close>

fun Contains :: "string \<Rightarrow> string \<Rightarrow> bool" where
  "Contains [] substr = (substr = [])"
| "Contains (c # cs) substr = (HasPrefix (c # cs) substr \<or> Contains cs substr)"

text \<open>
  \<^verbatim>\<open>strings.Split(s, sep)\<close> for a separator of one byte, the only use the source
  makes of it (\<^verbatim>\<open>"\n"\<close>): the pieces between the separators, one more piece than
  there are separators; the empty string gives one empty piece.
\<close>

fun Split :: "string \<Rightarrow> char \<Rightarrow> string list" where
  "Split [] sep = [[]]"
| "Split (c # cs) sep =
     (if c = sep then [] # Split cs sep
      else (case Split cs sep of
              [] \<Rightarrow> [[c]]
            | l # ls \<Rightarrow> (c # l) # ls))"

definition newline :: char where
  "newline = CHR 0x0A"

text \<open>
  \<^verbatim>\<open>utf8.RuneError\<close> and the decoding of the first rune of a string, as
  \<^verbatim>\<open>utf8.DecodeRuneInString\<close> and the \<^verbatim>\<open>range\<close> loop over a string do it:
  the rune and the number of bytes it takes. An ASCII byte is a rune of width 1; a byte
  that does not start a well-formed sequence is \<open>RuneError\<close> of width 1. The table
  \<^verbatim>\<open>first\<close> and the \<^verbatim>\<open>acceptRanges\<close> of the library are written out as
  comparisons on the lead byte: \<open>sz\<close> is the length the lead byte announces, \<open>lo\<close>
  and \<open>hi\<close> bound the second byte. The masks \<^verbatim>\<open>s0&mask2\<close>, \<^verbatim>\<open>s0&mask3\<close>,
  \<^verbatim>\<open>s0&mask4\<close> and \<^verbatim>\<open>s&maskx\<close> are \<open>mod 32\<close>, \<open>mod 16\<close>, \<open>mod 8\<close>
  and \<open>mod 64\<close>, the shifts are multiplications.
\<close>

definition RuneError :: nat where
  "RuneError = 0xFFFD"

definition is_cont :: "nat \<Rightarrow> bool" where
  "is_cont b = (0x80 \<le> b \<and> b \<le> 0xBF)"

fun DecodeRuneInString :: "string \<Rightarrow> nat \<times> nat" where
  "DecodeRuneInString [] = (RuneError, 0)"
| "DecodeRuneInString (c0 # rest) =
     (let s0 = (of_char c0 :: nat) in
      if s0 < 0x80 then (s0, 1)
      else if s0 < 0xC2 \<or> 0xF4 < s0 then (RuneError, 1)
      else
        let sz = (if s0 < 0xE0 then 2 else if s0 < 0xF0 then 3 else 4 :: nat);
            lo = (if s0 = 0xE0 then 0xA0 else if s0 = 0xF0 then 0x90 else 0x80 :: nat);
            hi = (if s0 = 0xED then 0x9F else if s0 = 0xF4 then 0x8F else 0xBF :: nat)
        in
        if length (c0 # rest) < sz then (RuneError, 1)
        else
          (case rest of
             [] \<Rightarrow> (RuneError, 1)
           | c1 # rest1 \<Rightarrow>
               let s1 = (of_char c1 :: nat) in
               if s1 < lo \<or> hi < s1 then (RuneError, 1)
               else if sz \<le> 2 then ((s0 mod 32) * 64 + s1 mod 64, 2)
               else
                 (case rest1 of
                    [] \<Rightarrow> (RuneError, 1)
                  | c2 # rest2 \<Rightarrow>
                      let s2 = (of_char c2 :: nat) in
                      if \<not> is_cont s2 then (RuneError, 1)
                      else if sz \<le> 3
                        then ((s0 mod 16) * 4096 + (s1 mod 64) * 64 + s2 mod 64, 3)
                      else
                        (case rest2 of
                           [] \<Rightarrow> (RuneError, 1)
                         | c3 # rest3 \<Rightarrow>
                             let s3 = (of_char c3 :: nat) in
                             if \<not> is_cont s3 then (RuneError, 1)
                             else ((s0 mod 8) * 262144 + (s1 mod 64) * 4096
                                     + (s2 mod 64) * 64 + s3 mod 64, 4)))))"

text \<open>
  \<^verbatim>\<open>for end, rune := range s\<close>: the runes of a string in order, each with the bytes
  it was decoded from. A rune of a non-empty string has width at least 1
  (lemma \<open>DecodeRuneInString_width\<close>), so the first byte is always consumed and
  \<open>w - 1\<close> further bytes follow it.
\<close>

fun range_string :: "string \<Rightarrow> (nat \<times> string) list" where
  "range_string [] = []"
| "range_string (c # cs) =
     (let (r, w) = DecodeRuneInString (c # cs)
      in (r, c # take (w - 1) cs) # range_string (drop (w - 1) cs))"

text \<open>
  \<^verbatim>\<open>unicode.IsSpace\<close>: in Latin-1 the six ASCII space characters, U+0085 and
  U+00A0; beyond it the code points of the property \<^verbatim>\<open>White_Space\<close>.
\<close>

definition IsSpace :: "nat \<Rightarrow> bool" where
  "IsSpace r =
     (if r \<le> 0xFF then r \<in> {0x09, 0x0A, 0x0B, 0x0C, 0x0D, 0x20, 0x85, 0xA0}
      else r = 0x1680 \<or> (0x2000 \<le> r \<and> r \<le> 0x200A) \<or> r = 0x2028 \<or> r = 0x2029
           \<or> r = 0x202F \<or> r = 0x205F \<or> r = 0x3000)"

text \<open>
  \<^verbatim>\<open>strings.FieldsFunc(s, f)\<close> over the decoded runes: \<open>cur\<close> is the field being
  read (\<^verbatim>\<open>start >= 0\<close> in the library, \<open>None\<close> for \<^verbatim>\<open>start < 0\<close>). A rune for
  which \<open>f\<close> holds ends the field; any other rune starts or extends one; the end of the
  string ends the last field.
\<close>

fun spans :: "(nat \<Rightarrow> bool) \<Rightarrow> string option \<Rightarrow> (nat \<times> string) list \<Rightarrow> string list" where
  "spans f None [] = []"
| "spans f (Some fld) [] = [fld]"
| "spans f None ((r, b) # rs) =
     (if f r then spans f None rs else spans f (Some b) rs)"
| "spans f (Some fld) ((r, b) # rs) =
     (if f r then fld # spans f None rs else spans f (Some (fld @ b)) rs)"

definition FieldsFunc :: "string \<Rightarrow> (nat \<Rightarrow> bool) \<Rightarrow> string list" where
  "FieldsFunc s f = spans f None (range_string s)"

text \<open>
  \<^verbatim>\<open>strings.Fields(s)\<close> splits around runs of white space as
  \<^verbatim>\<open>unicode.IsSpace\<close> defines it. (The library has a fast path for strings of
  ASCII bytes only; it computes the same fields.)
\<close>

definition Fields :: "string \<Rightarrow> string list" where
  "Fields s = FieldsFunc s IsSpace"

subsection \<open>The Scan Invoker\<close>

text \<open>
  What \<^verbatim>\<open>scanCmd.Run()\<close> can do: the process does not start (nothing is written
  to the buffers), or it runs and exits with a status, having written to its standard
  output and standard error.
\<close>

datatype proc = FailedToStart | Exited int string string

datatype error = ReadError | WriteError | SliceOutOfRange

text \<open>
  \<^verbatim>\<open>Scan(file, scanPath)\<close>, applied to what running the command did. The value
  \<^verbatim>\<open>Run\<close> returns is dropped; the result is the contents of the buffer
  \<^verbatim>\<open>out\<close> and the error \<^verbatim>\<open>nil\<close> (\<open>None\<close>).
\<close>

fun Scan :: "proc \<Rightarrow> string \<times> error option" where
  "Scan FailedToStart = ([], None)"
| "Scan (Exited status out stderr) = (out, None)"

subsection \<open>The Verdict Parser\<close>

text \<open>\<^verbatim>\<open>IsMalicious\<close>: the loop over the lines returns at the first line with the marker.\<close>

fun any_line_suspicious :: "string list \<Rightarrow> bool" where
  "any_line_suspicious [] = False"
| "any_line_suspicious (line # lines) =
     (if Contains line ''suspicion'' then True else any_line_suspicious lines)"

definition IsMalicious :: "string \<Rightarrow> bool" where
  "IsMalicious output = any_line_suspicious (Split output newline)"

text \<open>
  \<^verbatim>\<open>GetSignature\<close>: the inner loop over the fields of a line, the outer loop over
  the lines. A line with the marker none of whose fields has it lets the outer loop go on.
\<close>

fun first_heur_part :: "string list \<Rightarrow> string option" where
  "first_heur_part [] = None"
| "first_heur_part (part # parts) =
     (if Contains part ''HEUR:'' then Some part else first_heur_part parts)"

fun first_heur_line :: "string list \<Rightarrow> string option" where
  "first_heur_line [] = None"
| "first_heur_line (line # lines) =
     (if Contains line ''HEUR:''
      then (case first_heur_part (Fields line) of
              Some part \<Rightarrow> Some part
            | None \<Rightarrow> first_heur_line lines)
      else first_heur_line lines)"

definition GetSignature :: "string \<Rightarrow> string" where
  "GetSignature output =
     (case first_heur_line (Split output newline) of
        Some part \<Rightarrow> part
      | None \<Rightarrow> ''No signature found'')"

subsection \<open>Channels and the two reporting goroutines\<close>

text \<open>
  What a receive \<^verbatim>\<open>v, ok := <-ch\<close> yields: a value that was sent, or, on a closed
  channel, the zero value with \<^verbatim>\<open>ok = false\<close>. A goroutine is modelled by one
  pass through its \<^verbatim>\<open>for\<close> loop: it is still running, with its state, or it has
  returned.
\<close>

datatype 'a recv = Value 'a | Closed

datatype 'st task = Running 'st | Returned

record Progress =
  Low :: int
  High :: int
  Malicious :: bool

text \<open>
  The Progress Reporter (lines 80 to 98). The \<^verbatim>\<open>select\<close> takes the ticker case
  and then receives from \<^verbatim>\<open>progressUpdates\<close>, or takes the receive case directly.
  Both cases return when the channel is closed. The state is the list of events printed.
\<close>

datatype select_case = TickerCase "Progress recv" | ProgressCase "Progress recv"

fun reporter_iter :: "Progress list \<Rightarrow> select_case \<Rightarrow> Progress list task" where
  "reporter_iter printed (TickerCase (Value progress)) = Running (printed @ [progress])"
| "reporter_iter printed (TickerCase Closed) = Returned"
| "reporter_iter printed (ProgressCase (Value progress)) = Running printed"
| "reporter_iter printed (ProgressCase Closed) = Returned"

text \<open>
  The Threat Collector (lines 102 to 107): \<^verbatim>\<open>threat_name := <-threat_names\<close>
  takes the value only, so a closed channel gives the empty string, which is appended
  like any other; the loop has no exit.
\<close>

fun collector_iter :: "string list \<Rightarrow> string recv \<Rightarrow> string list task" where
  "collector_iter threat_list (Value threat_name) = Running (threat_list @ [threat_name])"
| "collector_iter threat_list Closed = Running (threat_list @ [[]])"

text \<open>A goroutine run over the receives it makes, in order, until it returns.\<close>

fun run_task :: "('st \<Rightarrow> 'ev \<Rightarrow> 'st task) \<Rightarrow> 'st \<Rightarrow> 'ev list \<Rightarrow> 'st task" where
  "run_task iter st [] = Running st"
| "run_task iter st (ev # evs) =
     (case iter st ev of
        Returned \<Rightarrow> Returned
      | Running st' \<Rightarrow> run_task iter st' evs)"

subsection \<open>The Bisection Engine\<close>

type_synonym byte = "8 word"

text \<open>
  The world outside the program: what the \<open>k\<close>-th run of the scanner does on a file
  with the given contents (run 0 is the scan of the original file), and whether the
  write of the scratch file before the \<open>k\<close>-th run fails. The scanner is indexed by the
  run, so it need not be a function of the contents: every sequence of verdicts is some
  environment.
\<close>

record env =
  run_scanner :: "nat \<Rightarrow> byte list \<Rightarrow> proc"
  write_fails :: "nat \<Rightarrow> bool"

text \<open>
  A slice expression \<^verbatim>\<open>b[lo:hi]\<close>. Go panics unless
  \<^verbatim>\<open>0 <= lo <= hi <= cap(b)\<close>; the capacity is at least the length, and the
  model already fails beyond the length, so a run of the model without
  \<open>SliceOutOfRange\<close> is a run of the program without the panic.
\<close>

definition slice :: "'a list \<Rightarrow> int \<Rightarrow> int \<Rightarrow> error + 'a list" where
  "slice b lo hi =
     (if 0 \<le> lo \<and> lo \<le> hi \<and> hi \<le> int (length b)
      then Inr (take (nat hi - nat lo) (drop (nat lo) b))
      else Inl SliceOutOfRange)"

text \<open>Go's \<^verbatim>\<open>x / 2\<close> on \<^verbatim>\<open>int\<close>: the quotient truncated toward zero.\<close>

definition half :: "int \<Rightarrow> int" where
  "half x = (if 0 \<le> x then x div 2 else - ((- x) div 2))"

text \<open>
  The variables of \<^verbatim>\<open>KasperskyRun\<close> that the loop reads and writes, the number of
  scanner runs so far, and what has been sent on the two channels.
  \<^verbatim>\<open>tf_lower\<close> is assigned once, to 0.
\<close>

record search =
  lastGood :: int
  upperBound :: int
  mid :: int
  threatFound :: bool
  scans :: nat
  progressUpdates :: "Progress list"
  threat_names :: "string list"

definition tf_lower :: int where
  "tf_lower = 0"

text \<open>The body of the loop (lines 142 to 167).\<close>

definition loop_body :: "env \<Rightarrow> byte list \<Rightarrow> search \<Rightarrow> error + search" where
  "loop_body e original_file s =
     (case slice original_file tf_lower (mid s) of
        Inl err \<Rightarrow> Inl err
      | Inr prefix_bytes \<Rightarrow>
          if write_fails e (scans s) then Inl WriteError
          else
            (case Scan (run_scanner e (scans s) prefix_bytes) of
               (output, Some err) \<Rightarrow> Inl err
             | (output, None) \<Rightarrow>
                 let s1 =
                   (if IsMalicious output
                    then s\<lparr>progressUpdates := progressUpdates s
                                @ [\<lparr>Low = tf_lower, High = mid s, Malicious = True\<rparr>],
                           threatFound := True,
                           upperBound := mid s\<rparr>
                    else s\<lparr>progressUpdates := progressUpdates s
                                @ [\<lparr>Low = tf_lower, High = mid s, Malicious = False\<rparr>],
                           lastGood := mid s\<rparr>)
                 in Inr (s1\<lparr>mid := half (lastGood s1 + upperBound s1),
                              scans := Suc (scans s)\<rparr>)))"

text \<open>The loop \<^verbatim>\<open>for upperBound-lastGood > 1\<close> (lines 141 to 168).\<close>

function bisect :: "env \<Rightarrow> byte list \<Rightarrow> search \<Rightarrow> error + search" where
  "bisect e original_file s =
     (if upperBound s - lastGood s > 1
      then (case loop_body e original_file s of
              Inl err \<Rightarrow> Inl err
            | Inr s' \<Rightarrow> bisect e original_file s')
      else Inr s)"
  by pat_completeness auto

text \<open>The state at line 138, after the scan of the original file was malicious.\<close>

definition init_search :: "byte list \<Rightarrow> string \<Rightarrow> search" where
  "init_search original_file output =
     \<lparr>lastGood = 0,
      upperBound = int (length original_file),
      mid = half (int (length original_file)),
      threatFound = False,
      scans = 1,
      progressUpdates = [],
      threat_names = [GetSignature output]\<rparr>"

text \<open>
  What the run prints at its end. The set of threats is the key set of the map
  \<^verbatim>\<open>uniqueThreats\<close>, filled from \<^verbatim>\<open>threat_list\<close>; \<^verbatim>\<open>threatData\<close> is the
  slice handed to \<^verbatim>\<open>hex.Dump\<close>.
\<close>

record report =
  offset :: int
  size :: int
  threatData :: "byte list"
  uniqueThreats :: "string set"

datatype outcome = NoThreatDetected | NotMalicious | IsolatedBadBytes report

text \<open>
  \<^verbatim>\<open>threat_list\<close> when line 194 reads it: the collector has taken every message
  the engine sent, since a send on an unbuffered channel returns only once it is received.
\<close>

definition collected :: "string list \<Rightarrow> string list" where
  "collected sent =
     (case run_task collector_iter [] (map Value sent) of
        Running threat_list \<Rightarrow> threat_list
      | Returned \<Rightarrow> [])"

text \<open>
  Lines 179 to 187: the bounds of the dumped window, \<^verbatim>\<open>lastGood - 32\<close> and
  \<^verbatim>\<open>mid + 32\<close>, clamped to the buffer.
\<close>

definition dump_start :: "search \<Rightarrow> int" where
  "dump_start s = (if lastGood s - 32 < 0 then 0 else lastGood s - 32)"

definition dump_end :: "byte list \<Rightarrow> search \<Rightarrow> int" where
  "dump_end original_file s =
     (if mid s + 32 > int (length original_file)
      then int (length original_file) else mid s + 32)"

text \<open>Lines 173 to 204: the report, from the state the loop ended in.\<close>

definition assemble :: "byte list \<Rightarrow> search \<Rightarrow> error + outcome" where
  "assemble original_file s =
     (if threatFound s then
        (case slice original_file (dump_start s) (dump_end original_file s) of
           Inl err \<Rightarrow> Inl err
         | Inr data \<Rightarrow>
             Inr (IsolatedBadBytes
                   \<lparr>offset = lastGood s,
                    size = int (length original_file),
                    threatData = data,
                    uniqueThreats = set (collected (threat_names s))\<rparr>))
      else Inr NotMalicious)"

text \<open>
  \<^verbatim>\<open>KasperskyRun\<close>; \<open>file\<close> is what \<^verbatim>\<open>os.ReadFile\<close> returned, the
  contents or, as \<open>None\<close>, an error. The scan of the original path is run 0 of the
  scanner, on the contents just read.
\<close>

definition KasperskyRun :: "env \<Rightarrow> byte list option \<Rightarrow> error + outcome" where
  "KasperskyRun e file =
     (case file of
        None \<Rightarrow> Inl ReadError
      | Some original_file \<Rightarrow>
          (case Scan (run_scanner e 0 original_file) of
             (output, Some err) \<Rightarrow> Inl err
           | (output, None) \<Rightarrow>
               if IsMalicious output
               then (case bisect e original_file (init_search original_file output) of
                       Inl err \<Rightarrow> Inl err
                     | Inr s \<Rightarrow> assemble original_file s)
               else Inr NoThreatDetected))"

subsection \<open>Definitions for the proofs\<close>

text \<open>
  The state at the head of the loop after \<open>k\<close> passes through its body, when the loop
  makes that many: \<open>None\<close> when it has ended before, by its condition or by an error.
\<close>

fun pass :: "env \<Rightarrow> byte list \<Rightarrow> nat \<Rightarrow> search \<Rightarrow> search option" where
  "pass e original_file 0 s = Some s"
| "pass e original_file (Suc k) s =
     (if upperBound s - lastGood s > 1
      then (case loop_body e original_file s of
              Inl err \<Rightarrow> None
            | Inr s' \<Rightarrow> pass e original_file k s')
      else None)"

text \<open>
  What holds of every state a run goes through: the window lies in the buffer, and
  \<open>mid\<close> is its midpoint.
\<close>

definition window_ok :: "byte list \<Rightarrow> search \<Rightarrow> bool" where
  "window_ok original_file s =
     (0 \<le> lastGood s \<and> lastGood s \<le> upperBound s
      \<and> upperBound s \<le> int (length original_file)
      \<and> mid s = half (lastGood s + upperBound s))"

text \<open>
  The window of the report in the words of the specification,
  \<^verbatim>\<open>FileBuffer[max(0,lastGood-32) : min(len,upperBound+32)]\<close>, to compare with the
  slice the code dumps.
\<close>

definition spec_windowDump :: "byte list \<Rightarrow> search \<Rightarrow> error + byte list" where
  "spec_windowDump original_file s =
     slice original_file (max 0 (lastGood s - 32))
       (min (int (length original_file)) (upperBound s + 32))"

subsection \<open>Example inputs\<close>

text \<open>
  A scanner that flags exactly the files of at least \<open>T\<close> bytes, in the words of a
  report of the real one; no write fails.
\<close>

definition threshold_scanner :: "nat \<Rightarrow> env" where
  "threshold_scanner T =
     \<lparr>run_scanner = (\<lambda>k contents. Exited 0
         (if T \<le> length contents
          then ''testfile.exe suspicion HEUR:Trojan.Win32.Generic''
          else ''testfile.exe ok'') []),
      write_fails = (\<lambda>k. False)\<rparr>"

text \<open>A file of \<open>n\<close> zero bytes.\<close>

definition zeros :: "nat \<Rightarrow> byte list" where
  "zeros n = replicate n 0"

text \<open>The bytes 0, 1, 2, ... of a file of \<open>n\<close> bytes.\<close>

definition counting :: "nat \<Rightarrow> byte list" where
  "counting n = map of_nat [0..<n]"

text \<open>
  A scanner that names one threat in the original file and another in every prefix.
\<close>

definition two_names_scanner :: env where
  "two_names_scanner =
     \<lparr>run_scanner = (\<lambda>k contents. Exited 0
         (if k = 0 then ''a.exe suspicion HEUR:Trojan.A''
          else ''testfile.exe suspicion HEUR:Trojan.B'') []),
      write_fails = (\<lambda>k. False)\<rparr>"

text \<open>A scanner that never starts.\<close>

definition dead_scanner :: env where
  "dead_scanner =
     \<lparr>run_scanner = (\<lambda>k contents. FailedToStart), write_fails = (\<lambda>k. False)\<rparr>"

text \<open>A line of a report, with a tab and a carriage return in it.\<close>

definition example_line :: string where
  "example_line =
     ''testfile.exe'' @ [CHR 0x09] @ ''suspicion HEUR:Trojan.Win32.Generic'' @ [CHR 0x0D]"

subsection \<open>Termination of the loop\<close>

text \<open>What a pass that does not fail has done.\<close>

lemma loop_body_Inr:
  assumes "loop_body e original_file s = Inr s'"
  shows "0 \<le> mid s" and "mid s \<le> int (length original_file)"
    and "mid s' = half (lastGood s' + upperBound s')"
    and "(upperBound s' = mid s \<and> lastGood s' = lastGood s \<and> threatFound s')
         \<or> (lastGood s' = mid s \<and> upperBound s' = upperBound s
             \<and> threatFound s' = threatFound s)"
    and "scans s' = Suc (scans s)"
    and "threat_names s' = threat_names s"
  using assms
  by (auto simp: loop_body_def slice_def tf_lower_def Let_def
      split: sum.splits if_splits prod.splits option.splits)

text \<open>
  The loop ends from every state, also from one the program never reaches: after one
  pass \<open>mid\<close> is the midpoint of the window, and from then on each pass makes the window
  narrower.
\<close>

lemma half_between:
  assumes "1 < ub - lg" and "0 \<le> half (lg + ub)"
  shows "lg < half (lg + ub)" and "half (lg + ub) < ub"
  using assms by (auto simp: half_def split: if_splits)

termination bisect
proof (relation "measures
    [\<lambda>(e, f, s). if mid s = half (lastGood s + upperBound s) then 0 else 1,
     \<lambda>(e, f, s). nat (upperBound s - lastGood s)]", goal_cases)
  case 1
  show ?case by simp
next
  case (2 e original_file s s')
  note b = loop_body_Inr [OF 2(2)]
  show ?case
  proof (cases "mid s = half (lastGood s + upperBound s)")
    case False
    with b(3) show ?thesis by simp
  next
    case True
    with b(1) have "0 \<le> half (lastGood s + upperBound s)" by simp
    from half_between [OF 2(1) this] True
    have "lastGood s < mid s" "mid s < upperBound s" by simp_all
    with b(3,4) True show ?thesis by auto
  qed
qed

declare bisect.simps [simp del]

subsection \<open>The window of the search\<close>

lemma half_nonneg: "0 \<le> x \<Longrightarrow> half x = x div 2"
  by (simp add: half_def)

lemma window_ok_init: "window_ok f (init_search f out)"
  by (simp add: window_ok_def init_search_def)

lemma window_ok_mid:
  assumes "window_ok f s" and "1 < upperBound s - lastGood s"
  shows "lastGood s < mid s" and "mid s < upperBound s"
    and "mid s - lastGood s = (upperBound s - lastGood s) div 2"
  using assms by (auto simp: window_ok_def half_nonneg)

text \<open>
  The sum \<^verbatim>\<open>lastGood + upperBound\<close> of line 167 is at most twice the length of the
  file: it does not wrap in a 64-bit \<^verbatim>\<open>int\<close> for a file of less than \<open>2^62\<close>
  bytes.
\<close>

lemma window_sum_bound:
  assumes "window_ok f s"
  shows "0 \<le> lastGood s + upperBound s"
    and "lastGood s + upperBound s \<le> 2 * int (length f)"
  using assms by (auto simp: window_ok_def)

lemma loop_body_window_ok:
  assumes "window_ok f s" and "1 < upperBound s - lastGood s"
    and "loop_body e f s = Inr s'"
  shows "window_ok f s'" and "lastGood s \<le> lastGood s'" and "upperBound s' \<le> upperBound s"
    and "lastGood s' < upperBound s'"
    and "2 * (upperBound s' - lastGood s') \<le> upperBound s - lastGood s + 1"
proof -
  note m = window_ok_mid [OF assms(1,2)]
  note b = loop_body_Inr [OF assms(3)]
  from assms(1) have w: "0 \<le> lastGood s" "upperBound s \<le> int (length f)"
    by (simp_all add: window_ok_def)
  from b(3,4) m w show "window_ok f s'" by (auto simp: window_ok_def)
  from b(4) m show "lastGood s \<le> lastGood s'" by auto
  from b(4) m show "upperBound s' \<le> upperBound s" by auto
  from b(4) m show "lastGood s' < upperBound s'" by auto
  from b(4) m show "2 * (upperBound s' - lastGood s') \<le> upperBound s - lastGood s + 1"
    by auto
qed

lemma loop_body_error:
  assumes "window_ok f s" and "1 < upperBound s - lastGood s"
    and "loop_body e f s = Inl err"
  shows "err = WriteError" and "write_fails e (scans s)"
proof -
  from window_ok_mid [OF assms(1,2)] assms(1)
  have "0 \<le> mid s" "mid s \<le> int (length f)" by (auto simp: window_ok_def)
  then obtain p where p: "slice f tf_lower (mid s) = Inr p"
    by (auto simp: slice_def tf_lower_def)
  obtain out where "Scan (run_scanner e (scans s) p) = (out, None)"
    by (cases "run_scanner e (scans s) p") auto
  with assms(3) p show "err = WriteError" "write_fails e (scans s)"
    by (auto simp: loop_body_def Let_def split: if_splits)
qed

lemma pass_window_ok:
  assumes "window_ok f s" and "pass e f k s = Some t"
  shows "window_ok f t \<and> lastGood s \<le> lastGood t \<and> upperBound t \<le> upperBound s
         \<and> scans t = scans s + k \<and> (0 < k \<longrightarrow> lastGood t < upperBound t)"
  using assms
proof (induction k arbitrary: s)
  case 0
  then show ?case by simp
next
  case (Suc k)
  from Suc.prems(2) obtain s' where c: "1 < upperBound s - lastGood s"
    and b: "loop_body e f s = Inr s'" and p: "pass e f k s' = Some t"
    by (auto split: if_splits sum.splits)
  note st = loop_body_window_ok [OF Suc.prems(1) c b]
  from Suc.IH [OF st(1) p] st(2,3,4) loop_body_Inr(5) [OF b] p show ?case
    by (cases k) auto
qed

lemma pass_add:
  "pass e f (j + d) s = (case pass e f j s of None \<Rightarrow> None | Some u \<Rightarrow> pass e f d u)"
  by (induction j arbitrary: s) (auto split: sum.splits)

lemma pass_bound:
  assumes "window_ok f s" and "pass e f k s = Some t"
    and "upperBound s - lastGood s \<le> 2 ^ m"
  shows "k \<le> m"
  using assms
proof (induction k arbitrary: s m)
  case 0
  then show ?case by simp
next
  case (Suc k)
  from Suc.prems(2) obtain s' where c: "1 < upperBound s - lastGood s"
    and b: "loop_body e f s = Inr s'" and p: "pass e f k s' = Some t"
    by (auto split: if_splits sum.splits)
  from c Suc.prems(3) obtain m' where m: "m = Suc m'"
    by (cases m) auto
  note st = loop_body_window_ok [OF Suc.prems(1) c b]
  from st(5) Suc.prems(3) m have "upperBound s' - lastGood s' \<le> 2 ^ m'"
    by simp
  from Suc.IH [OF st(1) p this] m show ?case by simp
qed

lemma bisect_pass:
  assumes "bisect e f s = Inr t"
  shows "\<exists>k. pass e f k s = Some t \<and> \<not> 1 < upperBound t - lastGood t"
  using assms
proof (induction e f s rule: bisect.induct)
  case (1 e f s)
  show ?case
  proof (cases "1 < upperBound s - lastGood s")
    case False
    with "1.prems" have "pass e f 0 s = Some t \<and> \<not> 1 < upperBound t - lastGood t"
      by (simp add: bisect.simps)
    then show ?thesis by blast
  next
    case True
    with "1.prems" obtain s' where b: "loop_body e f s = Inr s'"
      and r: "bisect e f s' = Inr t"
      by (auto simp: bisect.simps [of e f s] split: sum.splits)
    from "1.IH" [OF _ b r] True obtain k
      where "pass e f k s' = Some t" "\<not> 1 < upperBound t - lastGood t" by auto
    with True b have "pass e f (Suc k) s = Some t \<and> \<not> 1 < upperBound t - lastGood t"
      by simp
    then show ?thesis by blast
  qed
qed

lemma pass_bisect:
  assumes "pass e f k s = Some t" and "\<not> 1 < upperBound t - lastGood t"
  shows "bisect e f s = Inr t"
  using assms
proof (induction k arbitrary: s)
  case 0
  then show ?case by (simp add: bisect.simps [of e f t])
next
  case (Suc k)
  from Suc.prems(1) obtain s' where c: "1 < upperBound s - lastGood s"
    and b: "loop_body e f s = Inr s'" and p: "pass e f k s' = Some t"
    by (auto split: if_splits sum.splits)
  from Suc.IH [OF p Suc.prems(2)] c b show ?case
    by (simp add: bisect.simps [of e f s])
qed

lemma bisect_error:
  assumes "bisect e f s = Inl err" and "window_ok f s"
  shows "err = WriteError"
  using assms
proof (induction e f s rule: bisect.induct)
  case (1 e f s)
  from "1.prems"(1) have c: "1 < upperBound s - lastGood s"
    by (auto simp: bisect.simps [of e f s] split: if_splits)
  show ?case
  proof (cases "loop_body e f s")
    case (Inl err')
    with "1.prems"(1) c have "err' = err" by (simp add: bisect.simps [of e f s])
    with loop_body_error(1) [OF "1.prems"(2) c Inl] show ?thesis by simp
  next
    case (Inr s')
    with "1.prems"(1) c have "bisect e f s' = Inl err" by (simp add: bisect.simps [of e f s])
    from "1.IH" [OF _ Inr this] c loop_body_window_ok(1) [OF "1.prems"(2) c Inr]
    show ?thesis by simp
  qed
qed

lemma Scan_no_error: "snd (Scan p) = None"
  by (cases p) simp_all

lemma slice_prefix:
  assumes "0 \<le> hi" and "hi \<le> int (length b)"
  shows "slice b tf_lower hi = Inr (take (nat hi) b)"
  using assms by (simp add: slice_def tf_lower_def)

lemma loop_body_scan:
  assumes "window_ok f s" and "1 < upperBound s - lastGood s"
    and "\<not> write_fails e (scans s)"
  shows "\<exists>s'. loop_body e f s = Inr s'
           \<and> (if IsMalicious (fst (Scan (run_scanner e (scans s) (take (nat (mid s)) f))))
              then upperBound s' = mid s \<and> lastGood s' = lastGood s \<and> threatFound s'
              else lastGood s' = mid s \<and> upperBound s' = upperBound s
                   \<and> threatFound s' = threatFound s)"
proof -
  from window_ok_mid [OF assms(1,2)] assms(1)
  have "0 \<le> mid s" "mid s \<le> int (length f)" by (auto simp: window_ok_def)
  note p = slice_prefix [OF this]
  obtain out where o: "Scan (run_scanner e (scans s) (take (nat (mid s)) f)) = (out, None)"
    using Scan_no_error [of "run_scanner e (scans s) (take (nat (mid s)) f)"]
    by (cases "Scan (run_scanner e (scans s) (take (nat (mid s)) f))") auto
  with p assms(3) show ?thesis
    by (simp add: loop_body_def Let_def)
qed

lemma bisect_total_rule:
  assumes "I s"
    and "\<And>s. I s \<Longrightarrow> 1 < upperBound s - lastGood s
            \<Longrightarrow> \<exists>s'. loop_body e f s = Inr s' \<and> I s'"
  shows "\<exists>t. bisect e f s = Inr t \<and> I t \<and> \<not> 1 < upperBound t - lastGood t"
  using assms
proof (induction e f s rule: bisect.induct)
  case (1 e f s)
  show ?case
  proof (cases "1 < upperBound s - lastGood s")
    case False
    with "1.prems"(1) show ?thesis by (simp add: bisect.simps [of e f s])
  next
    case True
    from "1.prems"(2) [OF "1.prems"(1) True] obtain s' where b: "loop_body e f s = Inr s'"
      and i: "I s'" by blast
    from "1.IH" [OF True b i "1.prems"(2)] True b show ?thesis
      by (simp add: bisect.simps [of e f s])
  qed
qed


lemma flagged_report: "IsMalicious ''testfile.exe suspicion HEUR:Trojan.Win32.Generic''"
  by code_simp

lemma clean_report: "\<not> IsMalicious ''testfile.exe ok''"
  by code_simp

lemma threshold_scanner_verdict:
  "IsMalicious (fst (Scan (run_scanner (threshold_scanner T) k c))) = (T \<le> length c)"
  by (simp add: threshold_scanner_def flagged_report clean_report)

subsection \<open>Claims about the bisection loop\<close>

text \<open>
  Claim C2. Take any scanner and any file, and two states of the same run at the head
  of the loop, \<open>sj\<close> after \<open>j\<close> passes and \<open>sk\<close> after \<open>d\<close> more. Then
  \<open>lastGood\<close> has not decreased and \<open>upperBound\<close> has not increased from \<open>sj\<close> to
  \<open>sk\<close>; and if the loop goes on at \<open>sj\<close>, that is, the prefix \<^verbatim>\<open>[0:mid]\<close> is
  scanned there, then \<open>0 \<le> lastGood < mid \<le> upperBound \<le> len(original_file)\<close>.
\<close>

theorem window_invariant:
  assumes "pass e f j (init_search f out) = Some sj"
    and "pass e f d sj = Some sk"
  shows "lastGood sj \<le> lastGood sk \<and> upperBound sk \<le> upperBound sj
         \<and> (1 < upperBound sj - lastGood sj \<longrightarrow>
              0 \<le> lastGood sj \<and> lastGood sj < mid sj \<and> mid sj \<le> upperBound sj
              \<and> upperBound sj \<le> int (length f))"
proof -
  from pass_window_ok [OF window_ok_init assms(1)] have w: "window_ok f sj" by simp
  from pass_window_ok [OF w assms(2)]
  have "lastGood sj \<le> lastGood sk \<and> upperBound sk \<le> upperBound sj" by simp
  moreover from w window_ok_mid(1,2) [OF w]
  have "1 < upperBound sj - lastGood sj \<longrightarrow>
          0 \<le> lastGood sj \<and> lastGood sj < mid sj \<and> mid sj \<le> upperBound sj
          \<and> upperBound sj \<le> int (length f)"
    by (auto simp: window_ok_def)
  ultimately show ?thesis by simp
qed

theorem window_invariant_witness:
  "let sj = \<lparr>lastGood = 5, upperBound = 10, mid = 7, threatFound = False, scans = 2,
             progressUpdates = [\<lparr>Low = 0, High = 5, Malicious = False\<rparr>],
             threat_names = [''No signature found'']\<rparr>;
       sk = \<lparr>lastGood = 5, upperBound = 7, mid = 6, threatFound = True, scans = 3,
             progressUpdates = [\<lparr>Low = 0, High = 5, Malicious = False\<rparr>,
                                \<lparr>Low = 0, High = 7, Malicious = True\<rparr>],
             threat_names = [''No signature found'']\<rparr>
   in pass (threshold_scanner 7) (zeros 10) 1 (init_search (zeros 10) []) = Some sj
      \<and> pass (threshold_scanner 7) (zeros 10) 1 sj = Some sk
      \<and> 1 < upperBound sj - lastGood sj
      \<and> lastGood sj \<le> lastGood sk \<and> upperBound sk \<le> upperBound sj
      \<and> 0 \<le> lastGood sj \<and> lastGood sj < mid sj \<and> mid sj \<le> upperBound sj
      \<and> upperBound sj \<le> int (length (zeros 10))"
proof -
  let ?sj = "\<lparr>lastGood = 5, upperBound = 10, mid = 7, threatFound = False, scans = 2,
           progressUpdates = [\<lparr>Low = 0, High = 5, Malicious = False\<rparr>],
           threat_names = [''No signature found'']\<rparr>"
  let ?sk = "\<lparr>lastGood = 5, upperBound = 7, mid = 6, threatFound = True, scans = 3,
           progressUpdates = [\<lparr>Low = 0, High = 5, Malicious = False\<rparr>,
                              \<lparr>Low = 0, High = 7, Malicious = True\<rparr>],
           threat_names = [''No signature found'']\<rparr>"
  have a: "pass (threshold_scanner 7) (zeros 10) 1 (init_search (zeros 10) []) = Some ?sj"
    by code_simp
  have b: "pass (threshold_scanner 7) (zeros 10) 1 ?sj = Some ?sk"
    by code_simp
  from window_invariant [OF a b] a b show ?thesis
    unfolding Let_def by simp
qed

text \<open>
  The window starts as wide as the file is long, and a pass leaves at most the larger
  half of it.
\<close>

lemma init_width: "upperBound (init_search f out) - lastGood (init_search f out) \<le> 2 ^ ceillog2 (length f)"
proof -
  have "int (length f) \<le> int (2 ^ ceillog2 (length f))"
    using le_two_power_ceillog2 [of "length f"] by (simp only: of_nat_le_iff)
  then show ?thesis by (simp add: init_search_def)
qed

lemma passes_bound:
  assumes "pass e f k (init_search f out) = Some s"
  shows "k \<le> ceillog2 (length f)"
  using pass_bound [OF window_ok_init assms init_width] .

text \<open>
  Claim C3. For every scanner and every file the loop returns: with the error of a
  failed write of the scratch file, or with a final state. In that state
  \<open>upperBound - lastGood = 1\<close> if the loop made at least one pass (more than the one
  scan of the original file has been run), and the scans run by the loop, \<open>scans - 1\<close>,
  are at most \<open>ceil(log2 N) + 1\<close> for a file of \<open>N\<close> bytes. The bound holds for the
  number of passes of every run, also of one that a write error ends.
\<close>

theorem bisect_terminates:
  "(bisect e f (init_search f out) = Inl WriteError
    \<or> (\<exists>t. bisect e f (init_search f out) = Inr t
            \<and> (1 < scans t \<longrightarrow> upperBound t - lastGood t = 1)
            \<and> scans t - 1 \<le> ceillog2 (length f) + 1))
   \<and> (\<forall>k s. pass e f k (init_search f out) = Some s \<longrightarrow> k \<le> ceillog2 (length f) + 1)"
proof -
  have "bisect e f (init_search f out) = Inl WriteError
    \<or> (\<exists>t. bisect e f (init_search f out) = Inr t
            \<and> (1 < scans t \<longrightarrow> upperBound t - lastGood t = 1)
            \<and> scans t - 1 \<le> ceillog2 (length f) + 1)"
  proof (cases "bisect e f (init_search f out)")
    case (Inl err)
    from bisect_error [OF Inl window_ok_init] Inl show ?thesis by simp
  next
    case (Inr t)
    from bisect_pass [OF Inr] obtain k
      where k: "pass e f k (init_search f out) = Some t"
        and x: "\<not> 1 < upperBound t - lastGood t" by blast
    from pass_window_ok [OF window_ok_init k]
    have sc: "scans t = 1 + k" and pos: "0 < k \<longrightarrow> lastGood t < upperBound t"
      by (simp_all add: init_search_def)
    from sc pos x have "1 < scans t \<longrightarrow> upperBound t - lastGood t = 1" by auto
    moreover from passes_bound [OF k] sc have "scans t - 1 \<le> ceillog2 (length f) + 1"
      by simp
    ultimately show ?thesis using Inr by simp
  qed
  moreover have "\<forall>k s. pass e f k (init_search f out) = Some s
                   \<longrightarrow> k \<le> ceillog2 (length f) + 1"
    using passes_bound [of e f _ out] by (simp add: le_SucI)
  ultimately show ?thesis by simp
qed

theorem bisect_terminates_witness:
  "let t = \<lparr>lastGood = 6, upperBound = 7, mid = 6, threatFound = True, scans = 4,
            progressUpdates = [\<lparr>Low = 0, High = 5, Malicious = False\<rparr>,
                               \<lparr>Low = 0, High = 7, Malicious = True\<rparr>,
                               \<lparr>Low = 0, High = 6, Malicious = False\<rparr>],
            threat_names = [''No signature found'']\<rparr>
   in bisect (threshold_scanner 7) (zeros 10) (init_search (zeros 10) []) = Inr t
      \<and> pass (threshold_scanner 7) (zeros 10) 3 (init_search (zeros 10) []) = Some t
      \<and> 1 < scans t \<and> upperBound t - lastGood t = 1
      \<and> scans t - 1 \<le> ceillog2 (length (zeros 10)) + 1
      \<and> (3::nat) \<le> ceillog2 (length (zeros 10)) + 1"
proof -
  let ?t = "\<lparr>lastGood = 6, upperBound = 7, mid = 6, threatFound = True, scans = 4,
            progressUpdates = [\<lparr>Low = 0, High = 5, Malicious = False\<rparr>,
                               \<lparr>Low = 0, High = 7, Malicious = True\<rparr>,
                               \<lparr>Low = 0, High = 6, Malicious = False\<rparr>],
            threat_names = [''No signature found'']\<rparr>"
  have a: "bisect (threshold_scanner 7) (zeros 10) (init_search (zeros 10) []) = Inr ?t"
    by code_simp
  have b: "pass (threshold_scanner 7) (zeros 10) 3 (init_search (zeros 10) []) = Some ?t"
    by code_simp
  from bisect_terminates [of "threshold_scanner 7" "zeros 10" "[]"] a b show ?thesis
    unfolding Let_def by auto
qed

text \<open>
  Claim C1. Let the verdict on a file depend on its length alone, malicious exactly
  from \<open>T\<close> bytes on, with \<open>0 < T \<le> N\<close> for the file of \<open>N\<close> bytes, and let no
  write fail. Then the loop returns a state with \<open>lastGood = T - 1\<close> and
  \<open>upperBound = T\<close>: a prefix of the file is flagged exactly when it has at least
  \<open>upperBound\<close> bytes and clean exactly when it has at most \<open>lastGood\<close> bytes, so
  \<open>upperBound\<close> is the least flagged length and \<open>lastGood\<close> the greatest clean one.
\<close>

theorem bisect_converges:
  assumes "0 < T" and "T \<le> length f"
    and "\<And>k c. IsMalicious (fst (Scan (run_scanner e k c))) = (T \<le> length c)"
    and "\<And>k. \<not> write_fails e k"
  shows "\<exists>t. bisect e f (init_search f out) = Inr t
           \<and> lastGood t = int T - 1 \<and> upperBound t = int T
           \<and> (\<forall>n \<le> length f.
                 IsMalicious (fst (Scan (run_scanner e j (take n f))))
                   = (upperBound t \<le> int n)
                 \<and> (\<not> IsMalicious (fst (Scan (run_scanner e j (take n f)))))
                   = (int n \<le> lastGood t))"
proof -
  define I where "I s = (window_ok f s \<and> lastGood s < int T \<and> int T \<le> upperBound s)" for s
  have i0: "I (init_search f out)"
    using assms(1,2) window_ok_init [of f out] by (simp add: I_def init_search_def)
  have step: "\<exists>s'. loop_body e f s = Inr s' \<and> I s'"
    if i: "I s" and c: "1 < upperBound s - lastGood s" for s
  proof -
    from i have w: "window_ok f s" by (simp add: I_def)
    from window_ok_mid [OF w c] w have m: "0 \<le> mid s" "mid s \<le> int (length f)"
      by (auto simp: window_ok_def)
    then have len: "length (take (nat (mid s)) f) = nat (mid s)" by simp
    from loop_body_scan [OF w c assms(4)] obtain s' where b: "loop_body e f s = Inr s'"
      and v: "if T \<le> nat (mid s)
              then upperBound s' = mid s \<and> lastGood s' = lastGood s \<and> threatFound s'
              else lastGood s' = mid s \<and> upperBound s' = upperBound s
                   \<and> threatFound s' = threatFound s"
      unfolding assms(3) len by blast
    from loop_body_window_ok(1) [OF w c b] v i m have "I s'"
      by (auto simp: I_def split: if_splits)
    with b show ?thesis by blast
  qed
  from bisect_total_rule [of I, OF i0 step] obtain t
    where t: "bisect e f (init_search f out) = Inr t" and it: "I t"
      and x: "\<not> 1 < upperBound t - lastGood t" by blast
  from it x have eq: "lastGood t = int T - 1" "upperBound t = int T"
    by (auto simp: I_def)
  have "IsMalicious (fst (Scan (run_scanner e j (take n f)))) = (upperBound t \<le> int n)
        \<and> (\<not> IsMalicious (fst (Scan (run_scanner e j (take n f))))) = (int n \<le> lastGood t)"
    if "n \<le> length f" for n
  proof -
    from that have "length (take n f) = n" by simp
    with eq show ?thesis unfolding assms(3) by auto
  qed
  with t eq show ?thesis by blast
qed

theorem bisect_converges_witness:
  "0 < (700::nat) \<and> 700 \<le> length (zeros 1024)
   \<and> (\<exists>t. bisect (threshold_scanner 700) (zeros 1024) (init_search (zeros 1024) [])
            = Inr t
          \<and> lastGood t = 699 \<and> upperBound t = 700)"
proof -
  have l: "(700::nat) \<le> length (zeros 1024)" by (simp add: zeros_def)
  have w: "\<not> write_fails (threshold_scanner 700) k" for k
    by (simp add: threshold_scanner_def)
  from bisect_converges [OF _ l threshold_scanner_verdict w, of "[]"] l
  show ?thesis by auto
qed

text \<open>
  Claim C8. For a file of one byte whose scan is malicious the loop returns the state
  it started in, its body never run (no scan after that of the original file, no progress
  event), and the run reports
  \<^verbatim>\<open>Not malicious\<close>.
\<close>

theorem one_byte_file:
  assumes "length f = 1" and "Scan (run_scanner e 0 f) = (out, None)" and "IsMalicious out"
  shows "bisect e f (init_search f out) = Inr (init_search f out)
         \<and> scans (init_search f out) = 1 \<and> progressUpdates (init_search f out) = []
         \<and> KasperskyRun e (Some f) = Inr NotMalicious"
proof -
  from assms(1) have b: "bisect e f (init_search f out) = Inr (init_search f out)"
    by (simp add: bisect.simps [of e f] init_search_def)
  have "assemble f (init_search f out) = Inr NotMalicious"
    by (simp add: assemble_def init_search_def)
  with b assms(2,3) show ?thesis
    by (simp add: KasperskyRun_def init_search_def)
qed

theorem one_byte_file_witness:
  "length (zeros 1) = 1
   \<and> Scan (run_scanner (threshold_scanner 1) 0 (zeros 1))
       = (''testfile.exe suspicion HEUR:Trojan.Win32.Generic'', None)
   \<and> IsMalicious ''testfile.exe suspicion HEUR:Trojan.Win32.Generic''
   \<and> KasperskyRun (threshold_scanner 1) (Some (zeros 1)) = Inr NotMalicious"
proof -
  have l: "length (zeros 1) = 1" by (simp add: zeros_def)
  have s: "Scan (run_scanner (threshold_scanner 1) 0 (zeros 1))
       = (''testfile.exe suspicion HEUR:Trojan.Win32.Generic'', None)"
    by (simp add: threshold_scanner_def zeros_def)
  from one_byte_file [OF l s flagged_report] l s flagged_report show ?thesis by simp
qed

lemma bisect_window_ok:
  assumes "bisect e f s = Inr t" and "window_ok f s"
  shows "window_ok f t" and "\<not> 1 < upperBound t - lastGood t"
proof -
  from bisect_pass [OF assms(1)] obtain k where k: "pass e f k s = Some t"
    and x: "\<not> 1 < upperBound t - lastGood t" by blast
  from pass_window_ok [OF assms(2) k] show "window_ok f t" by simp
  from x show "\<not> 1 < upperBound t - lastGood t" .
qed

lemma dump_bounds:
  assumes "window_ok f t"
  shows "0 \<le> dump_start t" and "dump_start t \<le> dump_end f t"
    and "dump_end f t \<le> int (length f)"
  using assms by (auto simp: window_ok_def dump_start_def dump_end_def half_nonneg)

lemma assemble_no_panic:
  assumes "window_ok f t"
  shows "assemble f t \<noteq> Inl SliceOutOfRange"
  using dump_bounds [OF assms]
  by (simp add: assemble_def slice_def)

text \<open>
  Claim C10. No slice expression of a run leaves the buffer, for any scanner and any
  file: at every state where the loop scans a prefix, \<open>0 \<le> tf_lower \<le> mid \<le>
  len(original_file)\<close>; in the state the loop returns, the clamped bounds of the dump
  satisfy \<open>0 \<le> start \<le> end \<le> len(original_file)\<close>; and \<^verbatim>\<open>KasperskyRun\<close>
  never ends in the panic of a slice out of range.
\<close>

theorem slices_in_bounds:
  "(pass e f k (init_search f out) = Some s \<longrightarrow> 1 < upperBound s - lastGood s \<longrightarrow>
      0 \<le> tf_lower \<and> tf_lower \<le> mid s \<and> mid s \<le> int (length f))
   \<and> (bisect e f (init_search f out) = Inr t \<longrightarrow>
        0 \<le> dump_start t \<and> dump_start t \<le> dump_end f t
        \<and> dump_end f t \<le> int (length f))
   \<and> KasperskyRun e file \<noteq> Inl SliceOutOfRange"
proof (intro conjI impI)
  assume p: "pass e f k (init_search f out) = Some s"
    and c: "1 < upperBound s - lastGood s"
  from pass_window_ok [OF window_ok_init p] have w: "window_ok f s" by simp
  from window_ok_mid(1,2) [OF w c] w
  show "0 \<le> tf_lower" "tf_lower \<le> mid s" "mid s \<le> int (length f)"
    by (auto simp: tf_lower_def window_ok_def)
next
  assume b: "bisect e f (init_search f out) = Inr t"
  note d = dump_bounds [OF bisect_window_ok(1) [OF b window_ok_init]]
  from d show "0 \<le> dump_start t" "dump_start t \<le> dump_end f t"
    "dump_end f t \<le> int (length f)" by simp_all
next
  show "KasperskyRun e file \<noteq> Inl SliceOutOfRange"
  proof (cases "file")
    case None
    then show ?thesis by (simp add: KasperskyRun_def)
  next
    case (Some original_file)
    obtain out0 where o: "Scan (run_scanner e 0 original_file) = (out0, None)"
      using Scan_no_error [of "run_scanner e 0 original_file"]
      by (cases "Scan (run_scanner e 0 original_file)") auto
    show ?thesis
    proof (cases "bisect e original_file (init_search original_file out0)")
      case (Inl err)
      from bisect_error [OF Inl window_ok_init] Inl Some o show ?thesis
        by (simp add: KasperskyRun_def)
    next
      case (Inr t)
      from assemble_no_panic [OF bisect_window_ok(1) [OF Inr window_ok_init]] Inr Some o
      show ?thesis by (simp add: KasperskyRun_def)
    qed
  qed
qed


theorem slices_in_bounds_witness:
  "let s = \<lparr>lastGood = 5, upperBound = 10, mid = 7, threatFound = False, scans = 2,
            progressUpdates = [\<lparr>Low = 0, High = 5, Malicious = False\<rparr>],
            threat_names = [''No signature found'']\<rparr>;
       t = \<lparr>lastGood = 6, upperBound = 7, mid = 6, threatFound = True, scans = 4,
            progressUpdates = [\<lparr>Low = 0, High = 5, Malicious = False\<rparr>,
                               \<lparr>Low = 0, High = 7, Malicious = True\<rparr>,
                               \<lparr>Low = 0, High = 6, Malicious = False\<rparr>],
            threat_names = [''No signature found'']\<rparr>
   in pass (threshold_scanner 7) (zeros 10) 1 (init_search (zeros 10) []) = Some s
      \<and> 1 < upperBound s - lastGood s
      \<and> 0 \<le> tf_lower \<and> tf_lower \<le> mid s \<and> mid s \<le> int (length (zeros 10))
      \<and> bisect (threshold_scanner 7) (zeros 10) (init_search (zeros 10) []) = Inr t
      \<and> 0 \<le> dump_start t \<and> dump_start t \<le> dump_end (zeros 10) t
      \<and> dump_end (zeros 10) t \<le> int (length (zeros 10))
      \<and> KasperskyRun (threshold_scanner 7) (Some (zeros 10)) \<noteq> Inl SliceOutOfRange"
proof -
  let ?s = "\<lparr>lastGood = 5, upperBound = 10, mid = 7, threatFound = False, scans = 2,
            progressUpdates = [\<lparr>Low = 0, High = 5, Malicious = False\<rparr>],
            threat_names = [''No signature found'']\<rparr>"
  let ?t = "\<lparr>lastGood = 6, upperBound = 7, mid = 6, threatFound = True, scans = 4,
            progressUpdates = [\<lparr>Low = 0, High = 5, Malicious = False\<rparr>,
                               \<lparr>Low = 0, High = 7, Malicious = True\<rparr>,
                               \<lparr>Low = 0, High = 6, Malicious = False\<rparr>],
            threat_names = [''No signature found'']\<rparr>"
  have a: "pass (threshold_scanner 7) (zeros 10) 1 (init_search (zeros 10) []) = Some ?s"
    by code_simp
  have b: "bisect (threshold_scanner 7) (zeros 10) (init_search (zeros 10) []) = Inr ?t"
    by code_simp
  from slices_in_bounds [of "threshold_scanner 7" "zeros 10" 1 "[]" ?s ?t "Some (zeros 10)"]
    a b show ?thesis
    unfolding Let_def by simp
qed

subsection \<open>The report\<close>

lemma loop_body_threatFound:
  assumes "loop_body e f s = Inr s'"
    and "threatFound s = (\<exists>p \<in> set (progressUpdates s). Malicious p)"
  shows "threatFound s' = (\<exists>p \<in> set (progressUpdates s'). Malicious p)"
  using assms
  by (auto simp: loop_body_def Let_def
      split: sum.splits if_splits prod.splits option.splits)

lemma threatFound_pass:
  assumes "pass e f k s = Some t"
    and "threatFound s = (\<exists>p \<in> set (progressUpdates s). Malicious p)"
  shows "threatFound t = (\<exists>p \<in> set (progressUpdates t). Malicious p)"
  using assms
proof (induction k arbitrary: s)
  case 0
  then show ?case by simp
next
  case (Suc k)
  from Suc.prems(1) obtain s' where b: "loop_body e f s = Inr s'"
    and p: "pass e f k s' = Some t"
    by (auto split: if_splits sum.splits)
  from Suc.IH [OF p loop_body_threatFound [OF b Suc.prems(2)]] show ?case .
qed

lemma pass_threat_names:
  assumes "pass e f k s = Some t"
  shows "threat_names t = threat_names s"
  using assms
proof (induction k arbitrary: s)
  case 0
  then show ?case by simp
next
  case (Suc k)
  from Suc.prems obtain s' where b: "loop_body e f s = Inr s'"
    and p: "pass e f k s' = Some t"
    by (auto split: if_splits sum.splits)
  from Suc.IH [OF p] loop_body_Inr(6) [OF b] show ?case by simp
qed

lemma collected_sent: "collected sent = sent"
proof -
  have "run_task collector_iter acc (map Value xs) = Running (acc @ xs)" for acc xs
    by (induction xs arbitrary: acc) simp_all
  then show ?thesis by (simp add: collected_def)
qed

text \<open>
  Claim C5, as the specification words it, fails. A file of 40 bytes, the bytes 0 to 39,
  every prefix of which the scanner flags: the loop ends with \<open>lastGood = 0\<close>,
  \<open>upperBound = 1\<close> and \<open>mid = 0\<close>; the code dumps the bytes \<^verbatim>\<open>[0:32]\<close>, the
  specification's window is \<^verbatim>\<open>[0:33]\<close>.
\<close>

theorem dumped_window_counterexample:
  "threatFound (projr (bisect (threshold_scanner 1) (counting 40)
        (init_search (counting 40) ''testfile.exe suspicion HEUR:Trojan.Win32.Generic'')))
   \<and> KasperskyRun (threshold_scanner 1) (Some (counting 40))
       = Inr (IsolatedBadBytes
               \<lparr>offset = 0, size = 40, threatData = counting 32,
                uniqueThreats = {''HEUR:Trojan.Win32.Generic''}\<rparr>)
   \<and> spec_windowDump (counting 40) (projr (bisect (threshold_scanner 1) (counting 40)
        (init_search (counting 40) ''testfile.exe suspicion HEUR:Trojan.Win32.Generic'')))
       = Inr (counting 33)
   \<and> counting 33 \<noteq> counting 32"
  by code_simp


text \<open>
  Claim C5, amended. When at least one pass of the loop was malicious, the run reports
  the offset \<open>lastGood\<close>, and the window it dumps is
  \<^verbatim>\<open>original_file[max(0, lastGood-32) : min(len(original_file), lastGood+32)]\<close>:
  the code adds 32 to \<open>mid\<close>, which is \<open>lastGood\<close>, one less than \<open>upperBound\<close>,
  when the loop has ended.
\<close>

theorem dumped_window:
  assumes "Scan (run_scanner e 0 f) = (out, None)" and "IsMalicious out"
    and "bisect e f (init_search f out) = Inr t"
    and "\<exists>p \<in> set (progressUpdates t). Malicious p"
  shows "\<exists>r. KasperskyRun e (Some f) = Inr (IsolatedBadBytes r)
           \<and> offset r = lastGood t \<and> upperBound t = lastGood t + 1
           \<and> slice f (max 0 (lastGood t - 32)) (min (int (length f)) (lastGood t + 32))
               = Inr (threatData r)"
proof -
  from bisect_pass [OF assms(3)] obtain k
    where k: "pass e f k (init_search f out) = Some t"
      and x: "\<not> 1 < upperBound t - lastGood t" by blast
  have i: "threatFound (init_search f out)
             = (\<exists>p \<in> set (progressUpdates (init_search f out)). Malicious p)"
    by (simp add: init_search_def)
  from threatFound_pass [OF k i] assms(4) have tf: "threatFound t" by simp
  with k have "0 < k" by (cases k) (auto simp: init_search_def)
  with pass_window_ok [OF window_ok_init k]
  have w: "window_ok f t" and lt: "lastGood t < upperBound t" by simp_all
  from lt x have ub: "upperBound t = lastGood t + 1" by simp
  with w have m: "mid t = lastGood t" by (simp add: window_ok_def half_nonneg)
  from m have se: "dump_start t = max 0 (lastGood t - 32)"
    "dump_end f t = min (int (length f)) (lastGood t + 32)"
    by (auto simp: dump_start_def dump_end_def)
  from dump_bounds [OF w] obtain d
    where d: "slice f (dump_start t) (dump_end f t) = Inr d"
    by (auto simp: slice_def)
  with tf assms(1,2,3) se ub show ?thesis
    by (simp add: KasperskyRun_def assemble_def)
qed

theorem dumped_window_witness:
  "let t = \<lparr>lastGood = 0, upperBound = 1, mid = 0, threatFound = True, scans = 6,
            progressUpdates = [\<lparr>Low = 0, High = 20, Malicious = True\<rparr>,
                               \<lparr>Low = 0, High = 10, Malicious = True\<rparr>,
                               \<lparr>Low = 0, High = 5, Malicious = True\<rparr>,
                               \<lparr>Low = 0, High = 2, Malicious = True\<rparr>,
                               \<lparr>Low = 0, High = 1, Malicious = True\<rparr>],
            threat_names = [''HEUR:Trojan.Win32.Generic'']\<rparr>
   in Scan (run_scanner (threshold_scanner 1) 0 (counting 40))
        = (''testfile.exe suspicion HEUR:Trojan.Win32.Generic'', None)
      \<and> IsMalicious ''testfile.exe suspicion HEUR:Trojan.Win32.Generic''
      \<and> bisect (threshold_scanner 1) (counting 40)
          (init_search (counting 40) ''testfile.exe suspicion HEUR:Trojan.Win32.Generic'')
         = Inr t
      \<and> Malicious \<lparr>Low = 0, High = 20, Malicious = True\<rparr>
      \<and> (\<exists>r. KasperskyRun (threshold_scanner 1) (Some (counting 40))
                = Inr (IsolatedBadBytes r)
              \<and> offset r = lastGood t \<and> upperBound t = lastGood t + 1
              \<and> slice (counting 40) 0 32 = Inr (threatData r))"
proof -
  let ?t = "\<lparr>lastGood = 0, upperBound = 1, mid = 0, threatFound = True, scans = 6,
            progressUpdates = [\<lparr>Low = 0, High = 20, Malicious = True\<rparr>,
                               \<lparr>Low = 0, High = 10, Malicious = True\<rparr>,
                               \<lparr>Low = 0, High = 5, Malicious = True\<rparr>,
                               \<lparr>Low = 0, High = 2, Malicious = True\<rparr>,
                               \<lparr>Low = 0, High = 1, Malicious = True\<rparr>],
            threat_names = [''HEUR:Trojan.Win32.Generic'']\<rparr>"
  have a: "Scan (run_scanner (threshold_scanner 1) 0 (counting 40))
        = (''testfile.exe suspicion HEUR:Trojan.Win32.Generic'', None)"
    by code_simp
  have b: "bisect (threshold_scanner 1) (counting 40)
          (init_search (counting 40) ''testfile.exe suspicion HEUR:Trojan.Win32.Generic'')
         = Inr ?t"
    by code_simp
  have c: "\<exists>p \<in> set (progressUpdates ?t). Malicious p" by simp
  have l: "length (counting 40) = 40" by (simp add: counting_def)
  from dumped_window [OF a flagged_report b c] a b flagged_report l show ?thesis
    unfolding Let_def by simp
qed

lemma report_threats:
  assumes "KasperskyRun e (Some f) = Inr (IsolatedBadBytes r)"
  shows "uniqueThreats r = {GetSignature (fst (Scan (run_scanner e 0 f)))}"
proof -
  obtain out0 where o: "Scan (run_scanner e 0 f) = (out0, None)"
    using Scan_no_error [of "run_scanner e 0 f"]
    by (cases "Scan (run_scanner e 0 f)") auto
  with assms obtain t where b: "bisect e f (init_search f out0) = Inr t"
    and a: "assemble f t = Inr (IsolatedBadBytes r)"
    by (auto simp: KasperskyRun_def split: if_splits sum.splits)
  from bisect_pass [OF b] obtain k where "pass e f k (init_search f out0) = Some t"
    by blast
  from pass_threat_names [OF this] have "threat_names t = [GetSignature out0]"
    by (simp add: init_search_def)
  with a o show ?thesis
    by (auto simp: assemble_def collected_sent split: if_splits sum.splits)
qed

text \<open>
  Claim C4 on the code. The file has two bytes; the one pass of the loop scans the
  prefix of one byte, the verdict is malicious and the report names
  \<^verbatim>\<open>HEUR:Trojan.B\<close>. The body of the loop sets \<open>upperBound\<close> to \<open>mid\<close> and
  sends nothing on \<^verbatim>\<open>threat_names\<close>: the threats of the final report are the one
  name taken from the scan of the original file (lemma \<open>report_threats\<close> shows it of
  every run).
\<close>

theorem loop_signature_not_collected:
  "IsMalicious (fst (Scan (run_scanner two_names_scanner 1 (take 1 (zeros 2)))))
   \<and> GetSignature (fst (Scan (run_scanner two_names_scanner 1 (take 1 (zeros 2)))))
       = ''HEUR:Trojan.B''
   \<and> loop_body two_names_scanner (zeros 2)
        (init_search (zeros 2) ''a.exe suspicion HEUR:Trojan.A'')
      = Inr \<lparr>lastGood = 0, upperBound = 1, mid = 0, threatFound = True, scans = 2,
             progressUpdates = [\<lparr>Low = 0, High = 1, Malicious = True\<rparr>],
             threat_names = [''HEUR:Trojan.A'']\<rparr>
   \<and> KasperskyRun two_names_scanner (Some (zeros 2))
       = Inr (IsolatedBadBytes
               \<lparr>offset = 0, size = 2, threatData = zeros 2,
                uniqueThreats = {''HEUR:Trojan.A''}\<rparr>)"
  by code_simp

subsection \<open>The goroutines after the channels are closed\<close>

text \<open>
  Claim C9 on the code. Once \<^verbatim>\<open>threat_names\<close> is closed every receive of the
  Threat Collector yields at once; after any number \<open>n\<close> of them the goroutine is
  still running and has appended \<open>n\<close> empty strings to \<^verbatim>\<open>threat_list\<close>. (The
  Progress Reporter returns at its first receive on the closed channel, lemma
  \<open>reporter_returns\<close>.)
\<close>

theorem collector_never_returns:
  "run_task collector_iter threat_list (replicate n Closed)
     = Running (threat_list @ replicate n [])"
proof (induction n arbitrary: threat_list)
  case 0
  show ?case by simp
next
  case (Suc n)
  show ?case by (simp add: Suc.IH replicate_app_Cons_same)
qed

lemma reporter_returns:
  "run_task reporter_iter printed (TickerCase Closed # evs) = Returned"
  "run_task reporter_iter printed (ProgressCase Closed # evs) = Returned"
  by simp_all

subsection \<open>The verdict parser and the scan invoker\<close>

text \<open>
  \<^verbatim>\<open>strings.HasPrefix\<close> and \<^verbatim>\<open>strings.Contains\<close> are the prefix and the
  contiguous sublist of lists. The marker of \<^verbatim>\<open>IsMalicious\<close> has no line break in
  it, so a text has it exactly when one of its lines has it.
\<close>

lemma HasPrefix_prefix: "HasPrefix s p = prefix p s"
  by (induction s p rule: HasPrefix.induct) auto

lemma Contains_sublist: "Contains s substr = sublist substr s"
  by (induction s) (auto simp: HasPrefix_prefix sublist_Cons_right)

lemma Contains_append: "Contains (a @ m @ b) m"
  by (simp add: Contains_sublist)

lemma Split_not_Nil: "Split s sep \<noteq> []"
  by (induction s) (auto split: list.splits)

lemma HasPrefix_first_piece:
  assumes "sep \<notin> set m"
  shows "HasPrefix s m = HasPrefix (hd (Split s sep)) m"
  using assms
proof (induction s m rule: HasPrefix.induct)
  case (1 s)
  show ?case by simp
next
  case (2 p ps)
  show ?case by simp
next
  case (3 c cs p ps)
  then show ?case
    by (cases "Split cs sep") (auto simp: Split_not_Nil)
qed

lemma Contains_Split:
  assumes "sep \<notin> set m"
  shows "Contains s m = (\<exists>l \<in> set (Split s sep). Contains l m)"
proof (induction s)
  case Nil
  show ?case by simp
next
  case (Cons c cs)
  show ?case
  proof (cases "c = sep")
    case True
    with assms have "\<not> HasPrefix (c # cs) m \<or> m = []"
      by (cases m) auto
    with True Cons show ?thesis by (cases m) auto
  next
    case False
    obtain l ls where s: "Split cs sep = l # ls"
      using Split_not_Nil [of cs sep] by (cases "Split cs sep") auto
    from HasPrefix_first_piece [OF assms, of "c # cs"] False s
    have "HasPrefix (c # cs) m = HasPrefix (c # l) m" by simp
    with False s Cons show ?thesis by auto
  qed
qed

lemma any_line_suspicious_iff:
  "any_line_suspicious ls = (\<exists>l \<in> set ls. Contains l ''suspicion'')"
  by (induction ls) auto

lemma IsMalicious_Contains: "IsMalicious output = Contains output ''suspicion''"
  by (simp add: IsMalicious_def any_line_suspicious_iff newline_def
      Contains_Split [of "CHR 0x0A" "''suspicion''", symmetric])


text \<open>
  The decoder takes an ASCII byte as a rune of its own, and every byte it takes after
  the first of a rune is at least \<open>0x80\<close>. So an occurrence of a marker made of ASCII
  bytes that are not white space is never cut by a rune boundary or by a field boundary:
  a line with the marker has a field with the marker.
\<close>

lemma DecodeRuneInString_ascii:
  "(of_char c :: nat) < 0x80 \<Longrightarrow> DecodeRuneInString (c # cs) = (of_char c, 1)"
  by simp

lemma DecodeRuneInString_width:
  assumes "DecodeRuneInString (c # cs) = (r, w)"
  shows "1 \<le> w" and "w \<le> length (c # cs)"
    and "\<forall>x \<in> set (take (w - 1) cs). (0x80 :: nat) \<le> of_char x"
  using assms
  by (auto simp: Let_def is_cont_def split: if_splits list.splits)

lemma Contains_drop:
  assumes "(of_char a :: nat) < 0x80"
    and "\<forall>x \<in> set (take n cs). (0x80 :: nat) \<le> of_char x"
    and "Contains cs (a # m)"
  shows "Contains (drop n cs) (a # m)"
  using assms(2,3)
proof (induction n arbitrary: cs)
  case 0
  then show ?case by simp
next
  case (Suc n)
  show ?case
  proof (cases cs)
    case Nil
    with Suc.prems(2) show ?thesis by simp
  next
    case (Cons x xs)
    with Suc.prems(1) assms(1) have "x \<noteq> a" by auto
    with Suc.prems(2) Cons have "Contains xs (a # m)" by simp
    with Suc.IH [of xs] Suc.prems(1) Cons show ?thesis by simp
  qed
qed

lemma range_string_ascii:
  assumes "\<forall>c \<in> set m. (of_char c :: nat) < 0x80"
  shows "range_string (m @ b) = map (\<lambda>c. (of_char c, [c])) m @ range_string b"
  using assms by (induction m) simp_all

lemma spans_extend:
  assumes "\<forall>c \<in> set m. \<not> f (of_char c)"
  shows "spans f (Some fld) (map (\<lambda>c. (of_char c, [c])) m @ rs) = spans f (Some (fld @ m)) rs"
  using assms by (induction m arbitrary: fld) simp_all

lemma spans_start:
  assumes "\<forall>c \<in> set m. \<not> f (of_char c)" and "m \<noteq> []"
  shows "spans f None (map (\<lambda>c. (of_char c, [c])) m @ rs) = spans f (Some m) rs"
proof (cases m)
  case Nil
  with assms(2) show ?thesis by simp
next
  case (Cons c cs)
  with assms(1) spans_extend [of cs f "[c]" rs] show ?thesis by simp
qed

lemma spans_Some_head: "\<exists>y ys. spans f (Some fld) rs = (fld @ y) # ys"
proof (induction rs arbitrary: fld)
  case Nil
  show ?case by simp
next
  case (Cons a rs)
  obtain r b where a: "a = (r, b)" by (cases a)
  show ?case
  proof (cases "f r")
    case True
    with a show ?thesis by simp
  next
    case False
    from Cons [of "fld @ b"] obtain y ys
      where "spans f (Some (fld @ b)) rs = (fld @ b @ y) # ys" by auto
    with False a show ?thesis by simp
  qed
qed

lemma spans_marker_prefix:
  assumes "\<forall>c \<in> set m. \<not> f (of_char c)" and "m \<noteq> []"
  shows "\<exists>fld \<in> set (spans f cur (map (\<lambda>c. (of_char c, [c])) m @ rs)). Contains fld m"
proof (cases cur)
  case None
  from spans_Some_head [of f m rs] obtain y ys
    where "spans f (Some m) rs = (m @ y) # ys" by blast
  with None spans_start [OF assms] Contains_append [of "[]" m] show ?thesis
    by (metis append_Nil list.set_intros(1))
next
  case (Some fld)
  from spans_Some_head [of f "fld @ m" rs] obtain y ys
    where "spans f (Some (fld @ m)) rs = (fld @ m @ y) # ys" by auto
  with Some spans_extend [OF assms(1)] Contains_append [of fld m] show ?thesis
    by (metis list.set_intros(1))
qed

lemma spans_skip:
  "\<exists>cur'. set (spans f cur' rs) \<subseteq> set (spans f cur (a # rs))"
proof -
  obtain r b where a: "a = (r, b)" by (cases a)
  show ?thesis
  proof (cases cur)
    case None
    with a show ?thesis by (cases "f r") auto
  next
    case (Some fld)
    show ?thesis
    proof (cases "f r")
      case True
      with a Some have "set (spans f None rs) \<subseteq> set (spans f cur (a # rs))" by auto
      then show ?thesis ..
    next
      case False
      with a Some have "set (spans f (Some (fld @ b)) rs) \<subseteq> set (spans f cur (a # rs))"
        by auto
      then show ?thesis ..
    qed
  qed
qed

lemma spans_Contains:
  assumes "\<forall>c \<in> set m. (of_char c :: nat) < 0x80 \<and> \<not> f (of_char c)" and "m \<noteq> []"
    and "Contains s m"
  shows "\<exists>fld \<in> set (spans f cur (range_string s)). Contains fld m"
  using assms(3)
proof (induction s arbitrary: cur rule: range_string.induct)
  case 1
  with assms(2) show ?case by simp
next
  case (2 c cs)
  show ?case
  proof (cases "HasPrefix (c # cs) m")
    case True
    then obtain b where b: "c # cs = m @ b"
      by (auto simp: HasPrefix_prefix prefix_def)
    from assms(1) have "range_string (m @ b) = map (\<lambda>c. (of_char c, [c])) m @ range_string b"
      by (intro range_string_ascii) simp
    with spans_marker_prefix [of m f cur "range_string b"] assms(1,2) b
    show ?thesis by simp
  next
    case False
    with "2.prems" have cs: "Contains cs m" by simp
    obtain r w where d: "DecodeRuneInString (c # cs) = (r, w)"
      by (cases "DecodeRuneInString (c # cs)")
    obtain a m' where m: "m = a # m'" using assms(2) by (cases m) auto
    with assms(1) have a: "(of_char a :: nat) < 0x80" by simp
    from Contains_drop [OF a DecodeRuneInString_width(3) [OF d]] cs m
    have dr: "Contains (drop (w - 1) cs) m" by simp
    from spans_skip [of f "range_string (drop (w - 1) cs)" cur "(r, c # take (w - 1) cs)"]
    obtain cur' where sub: "set (spans f cur' (range_string (drop (w - 1) cs)))
        \<subseteq> set (spans f cur ((r, c # take (w - 1) cs) # range_string (drop (w - 1) cs)))"
      by blast
    from "2.IH" [OF d [symmetric] refl dr, of cur'] sub d show ?thesis
      by auto
  qed
qed

lemma HEUR_ascii: "\<forall>c \<in> set ''HEUR:''. (of_char c :: nat) < 0x80 \<and> \<not> IsSpace (of_char c)"
  by (simp add: IsSpace_def)

lemma Fields_Contains:
  assumes "Contains line ''HEUR:''"
  shows "\<exists>part \<in> set (Fields line). Contains part ''HEUR:''"
  unfolding Fields_def FieldsFunc_def
  by (rule spans_Contains [OF HEUR_ascii _ assms]) simp


lemma first_heur_part_None:
  "(first_heur_part parts = None) = (\<forall>part \<in> set parts. \<not> Contains part ''HEUR:'')"
  by (induction parts) auto

lemma first_heur_part_Some:
  assumes "first_heur_part parts = Some part"
  shows "\<exists>ps qs. parts = ps @ part # qs \<and> (\<forall>p \<in> set ps. \<not> Contains p ''HEUR:'')
           \<and> Contains part ''HEUR:''"
  using assms
proof (induction parts)
  case Nil
  then show ?case by simp
next
  case (Cons a parts)
  show ?case
  proof (cases "Contains a ''HEUR:''")
    case True
    with Cons.prems have "a # parts = [] @ part # parts \<and> Contains part ''HEUR:''"
      by simp
    then show ?thesis by (metis empty_iff list.set(1))
  next
    case False
    with Cons obtain ps qs where "parts = ps @ part # qs"
      "\<forall>p \<in> set ps. \<not> Contains p ''HEUR:''" "Contains part ''HEUR:''"
      by auto
    with False have "a # parts = (a # ps) @ part # qs
      \<and> (\<forall>p \<in> set (a # ps). \<not> Contains p ''HEUR:'') \<and> Contains part ''HEUR:''"
      by simp
    then show ?thesis by blast
  qed
qed

lemma first_heur_line_None:
  assumes "\<forall>line \<in> set lines. \<not> Contains line ''HEUR:''"
  shows "first_heur_line lines = None"
  using assms by (induction lines) auto

lemma first_heur_line_first:
  assumes "\<forall>l \<in> set before. \<not> Contains l ''HEUR:''" and "Contains line ''HEUR:''"
  shows "first_heur_line (before @ line # after) = first_heur_part (Fields line)
         \<and> first_heur_part (Fields line) \<noteq> None"
proof -
  from Fields_Contains [OF assms(2)] have n: "first_heur_part (Fields line) \<noteq> None"
    by (simp add: first_heur_part_None)
  with assms(2) have "first_heur_line (line # after) = first_heur_part (Fields line)"
    by auto
  with assms(1) have "first_heur_line (before @ line # after) = first_heur_part (Fields line)"
    by (induction before) auto
  with n show ?thesis by simp
qed

text \<open>
  Claim C7, as the specification words it, fails on the sentinel: for the empty report,
  no line of which has the marker, the code returns \<^verbatim>\<open>No signature found\<close>, with a
  capital letter, not \<^verbatim>\<open>no signature found\<close>.
\<close>

theorem GetSignature_sentinel_counterexample:
  "Split [] newline = [[]] \<and> \<not> Contains [] ''HEUR:''
   \<and> GetSignature [] = ''No signature found''
   \<and> GetSignature [] \<noteq> ''no signature found''"
  by (simp add: GetSignature_def)

text \<open>
  Claim C7, amended. For every report: if no line has the marker \<^verbatim>\<open>HEUR:\<close>,
  \<^verbatim>\<open>GetSignature\<close> returns the sentinel \<^verbatim>\<open>No signature found\<close>; otherwise, with
  \<open>line\<close> the first line that has the marker, it returns a field of \<open>line\<close> that has
  the marker and no field of \<open>line\<close> before it has: the first white-space delimited
  token with the marker.
\<close>

theorem GetSignature_first_token:
  "((\<forall>line \<in> set (Split output newline). \<not> Contains line ''HEUR:'')
      \<longrightarrow> GetSignature output = ''No signature found'')
   \<and> (Split output newline = before @ line # after
        \<longrightarrow> (\<forall>l \<in> set before. \<not> Contains l ''HEUR:'')
        \<longrightarrow> Contains line ''HEUR:''
        \<longrightarrow> (\<exists>ps qs. Fields line = ps @ GetSignature output # qs
                \<and> (\<forall>p \<in> set ps. \<not> Contains p ''HEUR:'')
                \<and> Contains (GetSignature output) ''HEUR:''))"
proof (intro conjI impI)
  assume "\<forall>line \<in> set (Split output newline). \<not> Contains line ''HEUR:''"
  from first_heur_line_None [OF this] show "GetSignature output = ''No signature found''"
    by (simp add: GetSignature_def)
next
  assume s: "Split output newline = before @ line # after"
    and b: "\<forall>l \<in> set before. \<not> Contains l ''HEUR:''"
    and l: "Contains line ''HEUR:''"
  from first_heur_line_first [OF b l, of after] obtain part
    where f: "first_heur_line (before @ line # after) = Some part"
      and p: "first_heur_part (Fields line) = Some part"
    by auto
  from f s have "GetSignature output = part" by (simp add: GetSignature_def)
  with first_heur_part_Some [OF p]
  show "\<exists>ps qs. Fields line = ps @ GetSignature output # qs
          \<and> (\<forall>p \<in> set ps. \<not> Contains p ''HEUR:'')
          \<and> Contains (GetSignature output) ''HEUR:''"
    by simp
qed

theorem GetSignature_first_token_witness:
  "Split (''; scanning'' @ [newline] @ example_line @ [newline] @ ''; HEUR: done'') newline
      = [''; scanning''] @ example_line # [''; HEUR: done'']
   \<and> \<not> Contains ''; scanning'' ''HEUR:''
   \<and> Contains example_line ''HEUR:''
   \<and> Fields example_line = [''testfile.exe'', ''suspicion'', ''HEUR:Trojan.Win32.Generic'']
   \<and> GetSignature (''; scanning'' @ [newline] @ example_line @ [newline] @ ''; HEUR: done'')
       = ''HEUR:Trojan.Win32.Generic''
   \<and> (\<exists>ps qs. Fields example_line
          = ps @ GetSignature (''; scanning'' @ [newline] @ example_line @ [newline]
                                @ ''; HEUR: done'') # qs
         \<and> list_all (\<lambda>p. \<not> Contains p ''HEUR:'') ps)
   \<and> \<not> Contains [] ''HEUR:''
   \<and> GetSignature [] = ''No signature found''"
proof -
  let ?out = "''; scanning'' @ [newline] @ example_line @ [newline] @ ''; HEUR: done''"
  have a: "Split ?out newline = [''; scanning''] @ example_line # [''; HEUR: done'']"
    by code_simp
  have b: "\<forall>l \<in> set [''; scanning'']. \<not> Contains l ''HEUR:''" by code_simp
  have c: "Contains example_line ''HEUR:''" by code_simp
  have d: "Fields example_line = [''testfile.exe'', ''suspicion'', ''HEUR:Trojan.Win32.Generic'']"
    by code_simp
  have e: "\<forall>line \<in> set (Split [] newline). \<not> Contains line ''HEUR:''" by simp
  have v: "GetSignature ?out = ''HEUR:Trojan.Win32.Generic''" by code_simp
  from GetSignature_first_token [of ?out "[''; scanning'']" example_line "[''; HEUR: done'']"]
    a b c
  have "\<exists>ps qs. Fields example_line = ps @ GetSignature ?out # qs
          \<and> list_all (\<lambda>p. \<not> Contains p ''HEUR:'') ps"
    unfolding list_all_iff by blast
  moreover from GetSignature_first_token [of "[]"] e
  have "GetSignature [] = ''No signature found''" by blast
  ultimately show ?thesis using a b c d v by simp
qed



lemma loop_body_clean:
  assumes "loop_body e f s = Inr s'"
    and "\<not> IsMalicious (fst (Scan (run_scanner e (scans s) (take (nat (mid s)) f))))"
  shows "lastGood s' = mid s \<and> upperBound s' = upperBound s
         \<and> threatFound s' = threatFound s"
  using assms
  by (auto simp: loop_body_def slice_def tf_lower_def Let_def
      split: sum.splits if_splits prod.splits option.splits)

text \<open>
  Claim C6. \<^verbatim>\<open>Scan\<close> returns what the process wrote to its standard output, with the
  error \<^verbatim>\<open>nil\<close>, whether the process failed to start (the text is then empty) or
  exited with any status. The empty text is clean, and so is any text without the marker
  \<^verbatim>\<open>suspicion\<close>: a pass of the loop whose scan gives such a text moves \<open>lastGood\<close>
  to \<open>mid\<close> and leaves \<open>upperBound\<close> and \<open>threatFound\<close> as they were.
\<close>

theorem Scan_best_effort:
  "Scan FailedToStart = ([], None)
   \<and> Scan (Exited status out stderr) = (out, None)
   \<and> \<not> IsMalicious []
   \<and> IsMalicious output = Contains output ''suspicion''
   \<and> (loop_body e f s = Inr s'
        \<longrightarrow> \<not> Contains (fst (Scan (run_scanner e (scans s) (take (nat (mid s)) f))))
                ''suspicion''
        \<longrightarrow> lastGood s' = mid s \<and> upperBound s' = upperBound s
            \<and> threatFound s' = threatFound s)"
proof (intro conjI impI)
  show "Scan FailedToStart = ([], None)" by simp
  show "Scan (Exited status out stderr) = (out, None)" by simp
  show "\<not> IsMalicious []" by (simp add: IsMalicious_Contains)
  show "IsMalicious output = Contains output ''suspicion''" by (rule IsMalicious_Contains)
next
  assume b: "loop_body e f s = Inr s'"
    and c: "\<not> Contains (fst (Scan (run_scanner e (scans s) (take (nat (mid s)) f))))
               ''suspicion''"
  from loop_body_clean [OF b] c
  show "lastGood s' = mid s" "upperBound s' = upperBound s" "threatFound s' = threatFound s"
    by (simp_all add: IsMalicious_Contains)
qed

theorem Scan_best_effort_witness:
  "loop_body dead_scanner (zeros 4) (init_search (zeros 4) [])
     = Inr \<lparr>lastGood = 2, upperBound = 4, mid = 3, threatFound = False, scans = 2,
            progressUpdates = [\<lparr>Low = 0, High = 2, Malicious = False\<rparr>],
            threat_names = [''No signature found'']\<rparr>
   \<and> Scan (run_scanner dead_scanner 1 (take 2 (zeros 4))) = ([], None)
   \<and> \<not> Contains [] ''suspicion''
   \<and> mid (init_search (zeros 4) []) = 2
   \<and> upperBound (init_search (zeros 4) []) = 4
   \<and> \<not> threatFound (init_search (zeros 4) [])"
proof -
  let ?s' = "\<lparr>lastGood = 2, upperBound = 4, mid = 3, threatFound = False, scans = 2,
            progressUpdates = [\<lparr>Low = 0, High = 2, Malicious = False\<rparr>],
            threat_names = [''No signature found'']\<rparr>"
  have a: "loop_body dead_scanner (zeros 4) (init_search (zeros 4) []) = Inr ?s'"
    by code_simp
  have b: "Scan (run_scanner dead_scanner k c) = ([], None)" for k c
    by (simp add: dead_scanner_def)
  from Scan_best_effort [of _ _ _ _ dead_scanner "zeros 4" "init_search (zeros 4) []" ?s']
    a b
  show ?thesis by simp
qed

end
